theory Spec2Isabelle
  imports Main "HOL-Library.Word"
begin

section \<open>JavaScript strings\<close>

text \<open>
  A JavaScript string is a sequence of UTF-16 code units. The regular expressions of
  \<^verbatim>\<open>src/dircraft.js\<close> carry no \<^verbatim>\<open>u\<close> flag, so they too work on code
  units. The tree glyphs all lie in the Basic Multilingual Plane: each is one code unit.
\<close>

type_synonym jschar = "16 word"
type_synonym jsstring = "jschar list"

text \<open>An ASCII literal, read as code units.\<close>

definition str :: "string \<Rightarrow> jsstring" where
  "str s = map (\<lambda>c. of_nat (of_char c)) s"

definition VBAR :: jschar where \<comment> \<open>U+2502, the vertical bar of the tree\<close>
  "VBAR = 0x2502"

definition TEE :: jschar where \<comment> \<open>U+251C, the branch glyph's first character\<close>
  "TEE = 0x251C"

definition ELBOW :: jschar where \<comment> \<open>U+2514, the last-branch glyph's first character\<close>
  "ELBOW = 0x2514"

definition DASH :: jschar where \<comment> \<open>U+2500, the horizontal stroke\<close>
  "DASH = 0x2500"

definition HASH :: jschar where
  "HASH = 0x23"

definition SLASH :: jschar where
  "SLASH = 0x2F"

definition NEWLINE :: jschar where
  "NEWLINE = 0x0A"

text \<open>
  The class \<^verbatim>\<open>\s\<close> of a regular expression, which is also what
  \<^verbatim>\<open>String.prototype.trim\<close> removes: the WhiteSpace and LineTerminator code
  points of ECMAScript.
\<close>

definition is_space :: "jschar \<Rightarrow> bool" where
  "is_space c \<longleftrightarrow>
     c = 0x09 \<or> c = 0x0A \<or> c = 0x0B \<or> c = 0x0C \<or> c = 0x0D \<or> c = 0x20 \<or> c = 0xA0 \<or>
     c = 0x1680 \<or> (0x2000 \<le> c \<and> c \<le> 0x200A) \<or> c = 0x2028 \<or> c = 0x2029 \<or>
     c = 0x202F \<or> c = 0x205F \<or> c = 0x3000 \<or> c = 0xFEFF"

text \<open>\<^verbatim>\<open>s.trim()\<close>\<close>

definition trim :: "jsstring \<Rightarrow> jsstring" where
  "trim s = rev (dropWhile is_space (rev (dropWhile is_space s)))"

text \<open>
  \<^verbatim>\<open>s.split(sep)\<close> for a separator of one code unit. The result is never empty:
  the empty string splits into one empty part.
\<close>

fun split_on :: "jschar \<Rightarrow> jsstring \<Rightarrow> jsstring list" where
  "split_on sep [] = [[]]"
| "split_on sep (c # cs) =
     (if c = sep then [] # split_on sep cs
      else (case split_on sep cs of [] \<Rightarrow> [[c]] | p # ps \<Rightarrow> (c # p) # ps))"

text \<open>\<^verbatim>\<open>s.endsWith(t)\<close>\<close>

definition endsWith :: "jsstring \<Rightarrow> jsstring \<Rightarrow> bool" where
  "endsWith s t \<longleftrightarrow> length t \<le> length s \<and> drop (length s - length t) s = t"

section \<open>The line decomposer: \<^verbatim>\<open>extractNameAndComment\<close>\<close>

record decomposed =
  name :: jsstring
  comment :: jsstring

text \<open>
  \<^verbatim>\<open>rawName.replace(RE, "")\<close>, where the pattern \<^verbatim>\<open>RE\<close> reads: at the start
  of the string (\<^verbatim>\<open>^\<close>), any number of characters of the class of \<^verbatim>\<open>\s\<close> and
  U+2502 (starred), then one character of the class of U+251C and U+2514, then U+2500
  twice, then \<^verbatim>\<open>\s*\<close>. The pattern is anchored and not global, so at most one match,
  at the start, is removed. The two classes are disjoint, so the greedy star takes the
  whole leading run of whitespace and bars and backtracking finds nothing else: the
  pattern matches when that run is followed by a branch character and two strokes, and
  the match extends over the whitespace after them. With no match the string is
  returned as it is.
\<close>

definition strip_tree_prefix :: "jsstring \<Rightarrow> jsstring" where
  "strip_tree_prefix s =
     (case dropWhile (\<lambda>c. is_space c \<or> c = VBAR) s of
        g # d1 # d2 # rest \<Rightarrow>
          if (g = TEE \<or> g = ELBOW) \<and> d1 = DASH \<and> d2 = DASH
          then dropWhile is_space rest else s
      | _ \<Rightarrow> s)"

definition extractNameAndComment :: "jsstring \<Rightarrow> decomposed" where
  "extractNameAndComment line =
     (let parts = split_on HASH line;
          rawName = trim (parts ! 0);
          comment = (if length parts > 1 then trim (parts ! 1) else []);
          cleanName = trim (strip_tree_prefix rawName)
      in \<lparr>name = cleanName, comment = comment\<rparr>)"

section \<open>The indentation resolver: \<^verbatim>\<open>calculateIndentationLevel\<close>\<close>

text \<open>
  \<^verbatim>\<open>line.match(RE)\<close>, for the global pattern of the one character U+2502, is the array of all matches, or \<^verbatim>\<open>null\<close> when
  there is none.
\<close>

definition match_all :: "jschar \<Rightarrow> jsstring \<Rightarrow> jsstring option" where
  "match_all g s = (let ms = filter (\<lambda>c. c = g) s in if ms = [] then None else Some ms)"

definition calculateIndentationLevel :: "jsstring \<Rightarrow> nat" where
  "calculateIndentationLevel line =
     (case match_all VBAR line of None \<Rightarrow> 0 | Some matches \<Rightarrow> length matches)"

section \<open>The path assembler: \<^verbatim>\<open>parseTreeStructure\<close>\<close>

text \<open>
  The result \<^verbatim>\<open>{ paths, comments }\<close>. The object \<^verbatim>\<open>comments\<close> is a map from
  property keys to values; \<open>dom\<close> is its set of own keys.
\<close>

record parse_result =
  paths :: "jsstring list"
  comments :: "jsstring \<rightharpoonup> jsstring"

text \<open>The loop's state adds the stack of parents, whose top is the last element.\<close>

record parse_state = parse_result +
  parentStack :: "jsstring list"

text \<open>
  \<^verbatim>\<open>comments[key] = value\<close> on an object created by \<^verbatim>\<open>{}\<close>. The key
  \<^verbatim>\<open>__proto__\<close> reaches the accessor inherited from \<^verbatim>\<open>Object.prototype\<close>,
  whose setter ignores a string: no own property is created.
\<close>

definition set_prop :: "jsstring \<Rightarrow> jsstring \<Rightarrow> (jsstring \<rightharpoonup> jsstring) \<Rightarrow> (jsstring \<rightharpoonup> jsstring)" where
  "set_prop key v obj = (if key = str ''__proto__'' then obj else obj(key \<mapsto> v))"

text \<open>\<^verbatim>\<open>while (parentStack.length > level + 1) parentStack.pop();\<close>\<close>

function pop_stack :: "nat \<Rightarrow> jsstring list \<Rightarrow> jsstring list" where
  "pop_stack level stack =
     (if length stack > level + 1 then pop_stack level (butlast stack) else stack)"
  by pat_completeness auto
termination
  by (relation "measure (\<lambda>(level, stack). length stack)") auto

declare pop_stack.simps [simp del]

text \<open>
  Lines 70 to 87: the first line gives the root. A string is truthy when it is not empty.
\<close>

definition root_state :: "jsstring \<Rightarrow> parse_state" where
  "root_state line0 =
     (let d = extractNameAndComment line0;
          rootName = name d;
          rootComment = comment d;
          paths0 = (if rootName \<noteq> [] then [rootName] else []);
          comments0 = (if rootName \<noteq> [] \<and> rootComment \<noteq> []
                       then set_prop rootName rootComment Map.empty else Map.empty)
      in \<lparr>paths = paths0, comments = comments0, parentStack = [rootName]\<rparr>)"

text \<open>
  Lines 91 to 123: the body of the loop, for one line. \<^verbatim>\<open>continue\<close> leaves the
  state as it is. \<^verbatim>\<open>parentStack[parentStack.length - 1] || ""\<close> is the empty string
  when the stack is empty (the read gives \<^verbatim>\<open>undefined\<close>) and when the top is the
  empty string.
\<close>

definition process_line :: "parse_state \<Rightarrow> jsstring \<Rightarrow> parse_state" where
  "process_line st line =
     (if trim line = [] then st
      else
        let level = calculateIndentationLevel line;
            d = extractNameAndComment line
        in if name d = [] then st
           else
             let stack = pop_stack level (parentStack st);
                 parentPath = (if stack = [] then [] else last stack);
                 fullPath = parentPath @ name d;
                 stack' = (if endsWith (name d) (str ''/'') then stack @ [fullPath] else stack);
                 comments' = (if comment d \<noteq> []
                              then set_prop fullPath (comment d) (comments st)
                              else comments st)
             in \<lparr>paths = paths st @ [fullPath], comments = comments',
                 parentStack = stack'\<rparr>)"

text \<open>\<^verbatim>\<open>content.split("\n").filter((line) => line.trim())\<close>\<close>

definition content_lines :: "jsstring \<Rightarrow> jsstring list" where
  "content_lines content = filter (\<lambda>line. trim line \<noteq> []) (split_on NEWLINE content)"

definition parseTreeStructure :: "jsstring \<Rightarrow> parse_result" where
  "parseTreeStructure content =
     (case content_lines content of
        [] \<Rightarrow> \<lparr>paths = [], comments = Map.empty\<rparr>
      | line0 # rest \<Rightarrow> parse_result.truncate (foldl process_line (root_state line0) rest))"

section \<open>The path classifier: \<^verbatim>\<open>separateDirectoriesAndFiles\<close>\<close>

text \<open>
  \<^verbatim>\<open>path.dirname\<close> is part of the Node.js runtime, not of the repository. The
  definition follows the POSIX implementation (\<^verbatim>\<open>lib/path.js\<close>, \<^verbatim>\<open>posix.dirname\<close>):
  a scan from the last index down to index 1 for the first slash that has a character
  other than a slash after it. (On Windows the runtime takes its \<^verbatim>\<open>win32\<close> variant,
  which differs on backslashes and drive letters; it is not modelled.)
\<close>

fun dirname_scan :: "jsstring \<Rightarrow> nat \<Rightarrow> bool \<Rightarrow> nat option" where
  "dirname_scan path 0 matchedSlash = None"
| "dirname_scan path (Suc k) matchedSlash =
     (if path ! Suc k = SLASH
      then (if \<not> matchedSlash then Some (Suc k) else dirname_scan path k matchedSlash)
      else dirname_scan path k False)"

definition dirname :: "jsstring \<Rightarrow> jsstring" where
  "dirname path =
     (if length path = 0 then str ''.''
      else
        let hasRoot = (path ! 0 = SLASH)
        in case dirname_scan path (length path - 1) True of
             None \<Rightarrow> if hasRoot then str ''/'' else str ''.''
           | Some e \<Rightarrow> if hasRoot \<and> e = 1 then str ''//'' else take e path)"

text \<open>
  A \<^verbatim>\<open>Set\<close> of strings keeps its elements in insertion order, each once.
\<close>

definition set_add :: "jsstring \<Rightarrow> jsstring list \<Rightarrow> jsstring list" where
  "set_add x s = (if x \<in> set s then s else s @ [x])"

text \<open>
  Lines 149 to 152, the walk up the parents of a file. Nothing bounds the number of
  rounds, so the loop is a partial function: \<open>None\<close> stands for a loop that never ends.
\<close>

partial_function (option) parent_loop :: "jsstring \<Rightarrow> jsstring list \<Rightarrow> jsstring list option" where
  "parent_loop currentDir directories =
     (if currentDir \<noteq> [] \<and> currentDir \<noteq> str ''.''
      then parent_loop (dirname currentDir) (set_add (currentDir @ str ''/'') directories)
      else Some directories)"

declare parent_loop.simps [code]

text \<open>Lines 139 to 154, the loop over the paths.\<close>

fun classify_loop ::
  "jsstring list \<Rightarrow> jsstring list \<Rightarrow> jsstring list \<Rightarrow> (jsstring list \<times> jsstring list) option" where
  "classify_loop [] directories files = Some (directories, files)"
| "classify_loop (filePath # rest) directories files =
     (if endsWith filePath (str ''/'')
      then classify_loop rest (set_add filePath directories) files
      else (case parent_loop (dirname filePath) directories of
              None \<Rightarrow> None
            | Some directories' \<Rightarrow> classify_loop rest directories' (files @ [filePath])))"

text \<open>\<^verbatim>\<open>(a.match(/\//g) || []).length\<close>\<close>

definition slash_count :: "jsstring \<Rightarrow> nat" where
  "slash_count a = length (case match_all SLASH a of None \<Rightarrow> [] | Some ms \<Rightarrow> ms)"

record classification =
  directories :: "jsstring list"
  files :: "jsstring list"

text \<open>
  \<^verbatim>\<open>Array.prototype.sort\<close> is stable, and the comparator orders by the number of
  slashes: the result is the stable sort by that key, which \<open>sort_key\<close> computes.
\<close>

definition separateDirectoriesAndFiles :: "jsstring list \<Rightarrow> classification option" where
  "separateDirectoriesAndFiles ps =
     (case classify_loop ps [] [] of
        None \<Rightarrow> None
      | Some (dirs, fs) \<Rightarrow> Some \<lparr>directories = sort_key slash_count dirs, files = fs\<rparr>)"

text \<open>
  \<^verbatim>\<open>path.isAbsolute\<close> of the same runtime (POSIX): the path starts with a slash.
\<close>

definition isAbsolute :: "jsstring \<Rightarrow> bool" where
  "isAbsolute p \<longleftrightarrow> p \<noteq> [] \<and> p ! 0 = SLASH"

text \<open>
  The directories that the walk of lines 148 to 152 adds for one file, in the order
  in which it adds them: the same rounds as \<open>parent_loop\<close>, at most \<open>n\<close> of them.
  The walk starts at the file's \<^verbatim>\<open>dirname\<close>, and as many rounds as that string is
  long are enough when it is not absolute.
\<close>

fun parent_chain :: "nat \<Rightarrow> jsstring \<Rightarrow> jsstring list" where
  "parent_chain 0 currentDir = []"
| "parent_chain (Suc n) currentDir =
     (if currentDir \<noteq> [] \<and> currentDir \<noteq> str ''.''
      then (currentDir @ str ''/'') # parent_chain n (dirname currentDir) else [])"

definition implied_directories :: "jsstring \<Rightarrow> jsstring list" where
  "implied_directories filePath = parent_chain (length (dirname filePath)) (dirname filePath)"

text \<open>Adding the elements of a list to a \<^verbatim>\<open>Set\<close>, one after the other.\<close>

definition add_all :: "jsstring list \<Rightarrow> jsstring list \<Rightarrow> jsstring list" where
  "add_all s xs = foldl (\<lambda>acc x. set_add x acc) s xs"

section \<open>The example tree of the specification\<close>

text \<open>
  The seven lines of the example: the root \<^verbatim>\<open>project/\<close>, below it \<^verbatim>\<open>src/\<close> (holding
  \<^verbatim>\<open>components/\<close> with \<^verbatim>\<open>Button.js # Button component\<close> and \<^verbatim>\<open>Input.js\<close>, then
  \<^verbatim>\<open>index.js\<close>) and \<^verbatim>\<open>package.json # Project dependencies\<close>, drawn with the tree
  glyphs and joined by newlines.
\<close>

definition example_tree :: jsstring where
  "example_tree =
     str ''project/'' @ [NEWLINE] @
     [TEE, DASH, DASH] @ str '' src/'' @ [NEWLINE] @
     [VBAR] @ str ''   '' @ [TEE, DASH, DASH] @ str '' components/'' @ [NEWLINE] @
     [VBAR] @ str ''   '' @ [VBAR] @ str ''   '' @ [TEE, DASH, DASH] @
       str '' Button.js # Button component'' @ [NEWLINE] @
     [VBAR] @ str ''   '' @ [VBAR] @ str ''   '' @ [ELBOW, DASH, DASH] @
       str '' Input.js'' @ [NEWLINE] @
     [VBAR] @ str ''   '' @ [ELBOW, DASH, DASH] @ str '' index.js'' @ [NEWLINE] @
     [ELBOW, DASH, DASH] @ str '' package.json # Project dependencies''"

section \<open>Evaluation\<close>

lemmas glyph_defs = VBAR_def TEE_def ELBOW_def DASH_def HASH_def SLASH_def NEWLINE_def

lemmas line_defs =
  glyph_defs str_def is_space_def trim_def strip_tree_prefix_def
  extractNameAndComment_def match_all_def calculateIndentationLevel_def Let_def

lemmas parse_defs =
  line_defs set_prop_def root_state_def process_line_def content_lines_def
  parseTreeStructure_def endsWith_def pop_stack.simps parse_result.truncate_def

section \<open>The indentation resolver counts every bar\<close>

lemma length_filter_eq_count: "length (filter (\<lambda>c. c = g) s) = count_list s g"
  by (induction s) auto

lemma filter_eq_Nil_count: "filter (\<lambda>c. c = g) s = [] \<Longrightarrow> count_list s g = 0"
  using length_filter_eq_count [of g s] by simp

lemma level_eq_count: "calculateIndentationLevel line = count_list line VBAR"
  by (simp add: calculateIndentationLevel_def match_all_def Let_def
      length_filter_eq_count filter_eq_Nil_count)

lemma count_list_absent: "g \<notin> set s \<Longrightarrow> count_list s g = 0"
  by (induction s) auto

lemma count_list_insert: "count_list (pre @ g # post) g = Suc (count_list (pre @ post) g)"
  by (induction pre) auto

text \<open>
  Claim C8. For every line, \<^verbatim>\<open>calculateIndentationLevel\<close> is the number of
  occurrences of the bar U+2502 in the whole line: a bar at any position, whatever
  stands before and after it (a branch glyph, a name, a comment), adds one to the
  level; a line without a bar has level 0; and the line of two bars, each followed by
  three spaces, then a branch glyph and \<^verbatim>\<open>x\<close>, has level 2.
\<close>

theorem calculateIndentationLevel_counts_all_bars:
  "calculateIndentationLevel line = count_list line VBAR \<and>
   calculateIndentationLevel (pre @ VBAR # post) = Suc (calculateIndentationLevel (pre @ post)) \<and>
   (VBAR \<notin> set line \<longrightarrow> calculateIndentationLevel line = 0) \<and>
   calculateIndentationLevel
     ([VBAR] @ str ''   '' @ [VBAR] @ str ''   '' @ [TEE, DASH, DASH] @ str '' x'') = 2"
proof -
  have "calculateIndentationLevel
     ([VBAR] @ str ''   '' @ [VBAR] @ str ''   '' @ [TEE, DASH, DASH] @ str '' x'') = 2"
    by (simp add: line_defs)
  then show ?thesis
    by (simp add: level_eq_count count_list_insert count_list_absent)
qed

theorem calculateIndentationLevel_counts_all_bars_witness:
  "VBAR \<notin> set (str ''project/'') \<and> calculateIndentationLevel (str ''project/'') = 0"
proof -
  have absent: "VBAR \<notin> set (str ''project/'')"
    by (simp add: str_def VBAR_def)
  with calculateIndentationLevel_counts_all_bars [of "str ''project/''"] show ?thesis
    by blast
qed

section \<open>The example tree, parsed\<close>

lemma example_tree_parsed:
  "parseTreeStructure example_tree =
     \<lparr>paths =
        [str ''project/'', str ''project/src/'', str ''project/src/components/'',
         str ''project/src/components/Button.js'', str ''project/src/components/Input.js'',
         str ''project/src/index.js'', str ''project/package.json''],
      comments =
        [str ''project/src/components/Button.js'' \<mapsto> str ''Button component'',
         str ''project/package.json'' \<mapsto> str ''Project dependencies'']\<rparr>"
  by (simp add: example_tree_def parse_defs)

text \<open>
  Claim C1. On the seven-line example tree, \<^verbatim>\<open>parseTreeStructure\<close> returns the paths
  \<^verbatim>\<open>project/\<close>, \<^verbatim>\<open>project/src/\<close>, \<^verbatim>\<open>project/src/components/\<close>,
  \<^verbatim>\<open>project/src/components/Button.js\<close>, \<^verbatim>\<open>project/src/components/Input.js\<close>,
  \<^verbatim>\<open>project/src/index.js\<close> and \<^verbatim>\<open>project/package.json\<close>, exactly these and in this
  order, and a comments map in which \<^verbatim>\<open>project/src/components/Button.js\<close> has the comment
  \<^verbatim>\<open>Button component\<close> and \<^verbatim>\<open>project/package.json\<close> has the comment
  \<^verbatim>\<open>Project dependencies\<close>.
\<close>

theorem parseTreeStructure_example_tree:
  "paths (parseTreeStructure example_tree) =
     [str ''project/'', str ''project/src/'', str ''project/src/components/'',
      str ''project/src/components/Button.js'', str ''project/src/components/Input.js'',
      str ''project/src/index.js'', str ''project/package.json''] \<and>
   comments (parseTreeStructure example_tree) (str ''project/src/components/Button.js'') =
     Some (str ''Button component'') \<and>
   comments (parseTreeStructure example_tree) (str ''project/package.json'') =
     Some (str ''Project dependencies'')"
  by (simp add: example_tree_parsed) (simp add: str_def)

section \<open>The line decomposer\<close>

lemma split_on_nonempty: "split_on sep s \<noteq> []"
  by (induction s) (auto split: list.splits)

lemma split_on_absent: "sep \<notin> set s \<Longrightarrow> split_on sep s = [s]"
  by (induction s) auto

lemma not_space_glyphs:
  "\<not> is_space VBAR" "\<not> is_space TEE" "\<not> is_space ELBOW" "\<not> is_space DASH" "\<not> is_space HASH"
  by (simp_all add: is_space_def glyph_defs)

lemma trim_Nil: "trim [] = []"
  by (simp add: trim_def)

lemma trim_all_space: "\<forall>c\<in>set s. is_space c \<Longrightarrow> trim s = []"
  by (simp add: trim_def dropWhile_eq_Nil_conv[THEN iffD2])

lemma trim_glyph_line:
  assumes "\<not> is_space g" "\<not> is_space z" "\<forall>c\<in>set post. is_space c"
  shows "trim (pre @ g # mid @ z # post) = dropWhile is_space pre @ g # mid @ [z]"
proof -
  have a: "dropWhile is_space (pre @ g # mid @ z # post) = dropWhile is_space pre @ g # mid @ z # post"
    using assms(1) by (rule dropWhile_append3)
  have b: "rev (dropWhile is_space pre @ g # mid @ z # post) = rev post @ z # rev (dropWhile is_space pre @ g # mid)"
    by simp
  have c: "dropWhile is_space (rev post @ z # rev (dropWhile is_space pre @ g # mid)) = z # rev (dropWhile is_space pre @ g # mid)"
    using assms(2,3) by (subst dropWhile_append2) auto
  show ?thesis
    unfolding trim_def a b c by simp
qed

lemma strip_tree_prefix_branch:
  assumes "\<forall>c\<in>set pre. is_space c \<or> c = VBAR" "g = TEE \<or> g = ELBOW"
  shows "strip_tree_prefix (pre @ g # DASH # DASH # rest) = dropWhile is_space rest"
proof -
  have "\<not> (is_space g \<or> g = VBAR)"
    using assms(2) by (auto simp: is_space_def glyph_defs)
  then have "dropWhile (\<lambda>c. is_space c \<or> c = VBAR) (pre @ g # DASH # DASH # rest) = g # DASH # DASH # rest"
    using assms(1) by (subst dropWhile_append2) auto
  then show ?thesis
    using assms(2) by (simp add: strip_tree_prefix_def)
qed

lemma glyph_line_name:
  assumes pre: "\<forall>c\<in>set pre. is_space c \<or> c = VBAR" and g: "g = TEE \<or> g = ELBOW"
    and post: "\<forall>c\<in>set post. is_space c"
  shows "name (extractNameAndComment (pre @ [g, DASH, DASH] @ post)) = []"
proof -
  let ?line = "pre @ [g, DASH, DASH] @ post"
  have "HASH \<notin> set ?line"
    using pre g post by (auto simp: is_space_def glyph_defs)
  then have parts: "split_on HASH ?line = [?line]"
    by (rule split_on_absent)
  have ng: "\<not> is_space g"
    using g not_space_glyphs by auto
  have raw: "trim ?line = dropWhile is_space pre @ [g, DASH, DASH]"
    using trim_glyph_line [OF ng not_space_glyphs(4) post, of pre "[DASH]"] by simp
  have "\<forall>c\<in>set (dropWhile is_space pre). is_space c \<or> c = VBAR"
    using pre set_dropWhileD by fastforce
  then have "strip_tree_prefix (dropWhile is_space pre @ g # DASH # DASH # []) = dropWhile is_space []"
    using g by (rule strip_tree_prefix_branch)
  then show ?thesis
    using parts raw by (simp add: extractNameAndComment_def trim_Nil)
qed

section \<open>The loop of the path assembler\<close>

lemma process_line_skip:
  "trim line = [] \<or> name (extractNameAndComment line) = [] \<Longrightarrow> process_line st line = st"
  by (auto simp: process_line_def Let_def)

lemma process_line_paths:
  assumes "trim line \<noteq> []" "name (extractNameAndComment line) \<noteq> []"
  shows "paths (process_line st line) =
     paths st @ [(let stack = pop_stack (calculateIndentationLevel line) (parentStack st)
                  in if stack = [] then [] else last stack) @ name (extractNameAndComment line)]"
  using assms by (simp add: process_line_def Let_def)

lemma process_line_paths_cases:
  "paths (process_line st line) = paths st \<or> (\<exists>p. paths (process_line st line) = paths st @ [p])"
  by (cases "trim line = [] \<or> name (extractNameAndComment line) = []")
    (auto simp: process_line_skip process_line_paths)

lemma foldl_paths_extend: "\<exists>more. paths (foldl process_line st ls) = paths st @ more"
proof (induction ls arbitrary: st)
  case Nil
  show ?case by simp
next
  case (Cons l ls)
  obtain m1 where m1: "paths (process_line st l) = paths st @ m1"
    using process_line_paths_cases [of st l] by auto
  obtain m2 where "paths (foldl process_line (process_line st l) ls) = paths (process_line st l) @ m2"
    using Cons.IH by blast
  with m1 show ?case by simp
qed

lemma pop_stack_take: "pop_stack level stack = take (level + 1) stack"
proof (induction level stack rule: pop_stack.induct)
  case (1 level stack)
  show ?case
  proof (cases "length stack > level + 1")
    case True
    then have "pop_stack level stack = take (level + 1) (butlast stack)"
      using "1.IH" by (simp add: pop_stack.simps [of level stack])
    also have "\<dots> = take (level + 1) stack"
      using True by (simp add: take_butlast)
    finally show ?thesis .
  next
    case False
    then show ?thesis
      by (simp add: pop_stack.simps [of level stack])
  qed
qed

lemma pop_stack_nonempty: "stack \<noteq> [] \<Longrightarrow> pop_stack level stack \<noteq> []"
  by (simp add: pop_stack_take)

lemma pop_stack_hd: "stack \<noteq> [] \<Longrightarrow> hd (pop_stack level stack) = hd stack"
  by (simp add: pop_stack_take)

lemma process_line_stack:
  assumes "parentStack st \<noteq> []"
  shows "parentStack (process_line st line) \<noteq> [] \<and>
         hd (parentStack (process_line st line)) = hd (parentStack st)"
  using assms by (auto simp: process_line_def Let_def pop_stack_nonempty pop_stack_hd)

lemma foldl_stack:
  "parentStack st \<noteq> [] \<Longrightarrow>
   parentStack (foldl process_line st ls) \<noteq> [] \<and>
   hd (parentStack (foldl process_line st ls)) = hd (parentStack st)"
proof (induction ls arbitrary: st)
  case Nil
  then show ?case by simp
next
  case (Cons l ls)
  from process_line_stack [OF Cons.prems, of l] Cons.IH [of "process_line st l"]
  show ?case by simp
qed

lemma root_state_stack: "parentStack (root_state line0) = [name (extractNameAndComment line0)]"
  by (simp add: root_state_def Let_def)

lemma set_prop_dom: "dom (set_prop k v m) \<subseteq> insert k (dom m)"
  by (auto simp: set_prop_def)

lemma process_line_keys:
  assumes "dom (comments st) \<subseteq> set (paths st)"
  shows "dom (comments (process_line st line)) \<subseteq> set (paths (process_line st line))"
  using assms by (auto simp: process_line_def Let_def set_prop_def split: if_splits)

lemma foldl_keys:
  "dom (comments st) \<subseteq> set (paths st) \<Longrightarrow>
   dom (comments (foldl process_line st ls)) \<subseteq> set (paths (foldl process_line st ls))"
  by (induction ls arbitrary: st) (simp_all add: process_line_keys)

lemma root_state_keys: "dom (comments (root_state line0)) \<subseteq> set (paths (root_state line0))"
  by (auto simp: root_state_def Let_def set_prop_def split: if_splits)

section \<open>Lines that yield no name, comments, and the root\<close>

lemma space_line_name: "\<forall>c\<in>set ws. is_space c \<Longrightarrow> name (extractNameAndComment ws) = []"
proof -
  assume ws: "\<forall>c\<in>set ws. is_space c"
  then have "HASH \<notin> set ws"
    using not_space_glyphs(5) by blast
  then have "split_on HASH ws = [ws]"
    by (rule split_on_absent)
  moreover have "trim ws = []"
    using ws by (rule trim_all_space)
  moreover have "strip_tree_prefix [] = []"
    by (simp add: strip_tree_prefix_def)
  ultimately show ?thesis
    by (simp add: extractNameAndComment_def trim_Nil)
qed

text \<open>
  Claim C3, as amended. For every line made of a run of whitespace and bars
  (U+2502), then one branch glyph (U+251C or U+2514 followed by two strokes U+2500),
  then whitespace only, \<^verbatim>\<open>extractNameAndComment\<close> returns an empty name, so the line
  contributes no path, neither as the first line nor in the loop; a line of whitespace
  only has an empty name too. The leading strip removes a run of whitespace and bars
  together with the branch glyph that follows it and the whitespace after that glyph.
\<close>

theorem branch_glyph_line_has_empty_name:
  assumes "\<forall>c\<in>set pre. is_space c \<or> c = VBAR" and "g = TEE \<or> g = ELBOW"
    and "\<forall>c\<in>set post. is_space c"
  shows "strip_tree_prefix (pre @ g # DASH # DASH # rest) = dropWhile is_space rest \<and>
         name (extractNameAndComment (pre @ [g, DASH, DASH] @ post)) = [] \<and>
         process_line st (pre @ [g, DASH, DASH] @ post) = st \<and>
         paths (root_state (pre @ [g, DASH, DASH] @ post)) = [] \<and>
         name (extractNameAndComment post) = []"
proof -
  have n: "name (extractNameAndComment (pre @ [g, DASH, DASH] @ post)) = []"
    using assms by (rule glyph_line_name)
  then have "process_line st (pre @ [g, DASH, DASH] @ post) = st"
    by (simp add: process_line_skip)
  moreover have "paths (root_state (pre @ [g, DASH, DASH] @ post)) = []"
    using n by (simp add: root_state_def Let_def)
  ultimately show ?thesis
    using n strip_tree_prefix_branch [OF assms(1,2)] space_line_name [OF assms(3)] by simp
qed

text \<open>The theorem at a bar, three spaces, a last-branch glyph and a space.\<close>

theorem branch_glyph_line_has_empty_name_witness:
  "list_all (\<lambda>c. is_space c \<or> c = VBAR) ([VBAR] @ str ''   '') \<and>
   list_all is_space (str '' '') \<and>
   strip_tree_prefix (([VBAR] @ str ''   '') @ ELBOW # DASH # DASH # str '' index.js'') =
     str ''index.js'' \<and>
   name (extractNameAndComment (([VBAR] @ str ''   '') @ [ELBOW, DASH, DASH] @ str '' '')) = []"
proof -
  have pre: "\<forall>c\<in>set ([VBAR] @ str ''   ''). is_space c \<or> c = VBAR"
    by (simp add: str_def is_space_def)
  have g: "ELBOW = TEE \<or> ELBOW = ELBOW"
    by simp
  have post: "\<forall>c\<in>set (str '' ''). is_space c"
    by (simp add: str_def is_space_def)
  have "dropWhile is_space (str '' index.js'') = str ''index.js''"
    by (simp add: str_def is_space_def)
  with branch_glyph_line_has_empty_name [OF pre g post, of "str '' index.js''"] pre post
  show ?thesis
    unfolding list_all_iff by simp
qed

text \<open>
  Claim C3 as stated fails: a line of one bar keeps the bar as its name, and adds the
  path of that name to the result; a line of two branch glyphs keeps the second as its
  name.
\<close>

theorem glyph_only_line_counterexample:
  "name (extractNameAndComment [VBAR]) = [VBAR] \<and>
   name (extractNameAndComment ([TEE, DASH, DASH] @ str '' '' @ [ELBOW, DASH, DASH])) = [ELBOW, DASH, DASH] \<and>
   paths (parseTreeStructure (str ''project/'' @ [NEWLINE] @ [VBAR])) = [str ''project/'', str ''project/'' @ [VBAR]]"
  by (simp add: parse_defs)

lemma split_on_first: "sep \<notin> set a \<Longrightarrow> split_on sep (a @ sep # b) = a # split_on sep b"
  by (induction a) auto

lemma split_at_first:
  "sep \<in> set s \<Longrightarrow>
   s = takeWhile (\<lambda>c. c \<noteq> sep) s @ sep # tl (dropWhile (\<lambda>c. c \<noteq> sep) s)"
  by (induction s) auto

lemma takeWhile_absent: "sep \<notin> set s \<Longrightarrow> takeWhile (\<lambda>c. c \<noteq> sep) s = s"
  by (induction s) auto

lemma split_on_takeWhile: "split_on sep s ! 0 = takeWhile (\<lambda>c. c \<noteq> sep) s"
proof (cases "sep \<in> set s")
  case True
  have "sep \<notin> set (takeWhile (\<lambda>c. c \<noteq> sep) s)"
    using set_takeWhileD by fastforce
  from split_on_first [OF this, of "tl (dropWhile (\<lambda>c. c \<noteq> sep) s)"] split_at_first [OF True]
  show ?thesis by simp
next
  case False
  then show ?thesis by (simp add: split_on_absent takeWhile_absent)
qed

lemma split_on_second:
  assumes "sep \<in> set s"
  shows "1 < length (split_on sep s) \<and>
         split_on sep s ! 1 = takeWhile (\<lambda>c. c \<noteq> sep) (tl (dropWhile (\<lambda>c. c \<noteq> sep) s))"
proof -
  let ?a = "takeWhile (\<lambda>c. c \<noteq> sep) s" and ?b = "tl (dropWhile (\<lambda>c. c \<noteq> sep) s)"
  have "sep \<notin> set ?a"
    using set_takeWhileD by fastforce
  from split_on_first [OF this, of ?b] split_at_first [OF assms]
  have "split_on sep s = ?a # split_on sep ?b"
    by simp
  moreover have "split_on sep ?b \<noteq> []"
    by (rule split_on_nonempty)
  ultimately show ?thesis
    using split_on_takeWhile [of sep ?b] by (cases "split_on sep ?b") simp_all
qed

text \<open>
  What the decomposer returns on every line: the name comes from the text before the
  first \<^verbatim>\<open>#\<close>, and the comment is the text between the first \<^verbatim>\<open>#\<close> and the second
  (or the end of the line), trimmed; a line with no \<^verbatim>\<open>#\<close> has the empty comment.
\<close>

lemma extractNameAndComment_parts:
  "name (extractNameAndComment line) =
     trim (strip_tree_prefix (trim (takeWhile (\<lambda>c. c \<noteq> HASH) line))) \<and>
   comment (extractNameAndComment line) =
     (if HASH \<in> set line
      then trim (takeWhile (\<lambda>c. c \<noteq> HASH) (tl (dropWhile (\<lambda>c. c \<noteq> HASH) line)))
      else [])"
proof (cases "HASH \<in> set line")
  case True
  from split_on_second [OF this] show ?thesis
    using True by (simp add: extractNameAndComment_def Let_def split_on_takeWhile)
next
  case False
  then show ?thesis
    by (simp add: extractNameAndComment_def Let_def split_on_absent takeWhile_absent)
qed

text \<open>
  Claim C5. The comment should be all of the text after the first \<^verbatim>\<open>#\<close>, further
  \<^verbatim>\<open>#\<close> characters included. On the line \<^verbatim>\<open>a # b # c\<close> the code returns the
  comment \<^verbatim>\<open>b\<close>: the part between the first and the second \<^verbatim>\<open>#\<close>.
\<close>

theorem extractNameAndComment_second_hash:
  "extractNameAndComment (str ''a # b # c'') = \<lparr>name = str ''a'', comment = str ''b''\<rparr>"
  by (simp add: line_defs)

lemma content_lines_blank:
  "\<forall>l\<in>set (split_on NEWLINE content). trim l = [] \<Longrightarrow> content_lines content = []"
  by (simp add: content_lines_def)

lemma content_lines_nonblank: "l \<in> set (content_lines content) \<Longrightarrow> trim l \<noteq> []"
  by (simp add: content_lines_def)

lemma root_state_paths:
  "name (extractNameAndComment line0) \<noteq> [] \<Longrightarrow>
   paths (root_state line0) = [name (extractNameAndComment line0)]"
  by (simp add: root_state_def Let_def)

lemma parseTreeStructure_Cons:
  "content_lines content = line0 # rest \<Longrightarrow>
   paths (parseTreeStructure content) = paths (foldl process_line (root_state line0) rest)"
  by (simp add: parseTreeStructure_def parse_result.truncate_def)

text \<open>
  Claim C4, as amended. \<^verbatim>\<open>parseTreeStructure\<close> is total. An input whose lines are all
  blank yields no path and no comment. An input whose first non-blank line has a
  non-empty name yields at least the root path: that name is the first path. The empty
  string yields no path and no comment, and \<^verbatim>\<open>not a valid structure\<close> yields itself as
  the only path, with no comment.
\<close>

theorem parseTreeStructure_empty_or_root:
  "((\<forall>l\<in>set (split_on NEWLINE content). trim l = []) \<longrightarrow>
      parseTreeStructure content = \<lparr>paths = [], comments = Map.empty\<rparr>) \<and>
   (content_lines content = line0 # rest \<and> name (extractNameAndComment line0) \<noteq> [] \<longrightarrow>
      paths (parseTreeStructure content) \<noteq> [] \<and>
      hd (paths (parseTreeStructure content)) = name (extractNameAndComment line0)) \<and>
   parseTreeStructure [] = \<lparr>paths = [], comments = Map.empty\<rparr> \<and>
   parseTreeStructure (str ''not a valid structure'') =
     \<lparr>paths = [str ''not a valid structure''], comments = Map.empty\<rparr>"
proof -
  have blank: "parseTreeStructure content = \<lparr>paths = [], comments = Map.empty\<rparr>"
    if "\<forall>l\<in>set (split_on NEWLINE content). trim l = []"
    using content_lines_blank [OF that] by (simp add: parseTreeStructure_def)
  have root: "paths (parseTreeStructure content) \<noteq> [] \<and>
      hd (paths (parseTreeStructure content)) = name (extractNameAndComment line0)"
    if l: "content_lines content = line0 # rest" and n: "name (extractNameAndComment line0) \<noteq> []"
  proof -
    obtain more where "paths (foldl process_line (root_state line0) rest) = paths (root_state line0) @ more"
      using foldl_paths_extend by blast
    then show ?thesis
      using parseTreeStructure_Cons [OF l] root_state_paths [OF n] by simp
  qed
  have ex: "parseTreeStructure [] = \<lparr>paths = [], comments = Map.empty\<rparr> \<and>
     parseTreeStructure (str ''not a valid structure'') =
     \<lparr>paths = [str ''not a valid structure''], comments = Map.empty\<rparr>"
    by (simp add: parse_defs)
  from blank root ex show ?thesis by blast
qed

text \<open>The theorem at two blank lines, and at a blank line followed by \<^verbatim>\<open>lib/ # code\<close>.\<close>

theorem parseTreeStructure_empty_or_root_witness:
  "list_all (\<lambda>l. trim l = []) (split_on NEWLINE (str ''  '' @ [NEWLINE] @ str '' '')) \<and>
   parseTreeStructure (str ''  '' @ [NEWLINE] @ str '' '') = \<lparr>paths = [], comments = Map.empty\<rparr> \<and>
   content_lines ([NEWLINE] @ str ''lib/ # code'') = str ''lib/ # code'' # [] \<and>
   name (extractNameAndComment (str ''lib/ # code'')) = str ''lib/'' \<and>
   hd (paths (parseTreeStructure ([NEWLINE] @ str ''lib/ # code''))) = str ''lib/''"
proof -
  have blank: "\<forall>l\<in>set (split_on NEWLINE (str ''  '' @ [NEWLINE] @ str '' '')). trim l = []"
    by (simp add: line_defs)
  have lines: "content_lines ([NEWLINE] @ str ''lib/ # code'') = str ''lib/ # code'' # []"
    by (simp add: content_lines_def line_defs)
  have nm: "name (extractNameAndComment (str ''lib/ # code'')) = str ''lib/''"
    by (simp add: line_defs)
  have ne: "str ''lib/'' \<noteq> []"
    by (simp add: str_def)
  from parseTreeStructure_empty_or_root [of "str ''  '' @ [NEWLINE] @ str '' ''"] blank
    parseTreeStructure_empty_or_root [of "[NEWLINE] @ str ''lib/ # code''" "str ''lib/ # code''" "[]"]
    lines nm ne
  show ?thesis
    unfolding list_all_iff by simp
qed

text \<open>
  Claim C4 as stated fails: the input \<^verbatim>\<open># notes\<close> has a line that is not blank, and
  yields no path.
\<close>

theorem parseTreeStructure_no_root_counterexample:
  "\<not> (\<forall>l\<in>set (split_on NEWLINE (str ''# notes'')). trim l = []) \<and>
   paths (parseTreeStructure (str ''# notes'')) = []"
  by (simp add: parse_defs)

text \<open>
  Claim C10. For every input, every key of the comments map that
  \<^verbatim>\<open>parseTreeStructure\<close> returns is an element of the paths it returns.
\<close>

theorem comment_keys_are_paths:
  "dom (comments (parseTreeStructure content)) \<subseteq> set (paths (parseTreeStructure content))"
  by (cases "content_lines content")
    (simp_all add: parseTreeStructure_def parse_result.truncate_def foldl_keys root_state_keys)

section \<open>The ancestor stack\<close>

text \<open>
  Claim C7. In every state \<open>st\<close> that the loop reaches, and for every line that is not
  blank and has a non-empty name, of level \<open>level\<close>: the stack has at least one entry;
  the pop loop keeps the first \<open>level + 1\<close> entries, so it pops only while the stack
  is longer than \<open>level + 1\<close>, and it never pops the root entry; when the stack has at
  most \<open>level + 1\<close> entries nothing is popped and the path of the line is the top of
  the stack followed by the name; and the stack has at least one entry after the line.
\<close>

theorem ancestor_stack_keeps_root:
  assumes reach: "st = foldl process_line (root_state line0) before"
    and line: "trim line \<noteq> []" "name (extractNameAndComment line) \<noteq> []"
    and level: "level = calculateIndentationLevel line"
  shows "1 \<le> length (parentStack st) \<and>
         pop_stack level (parentStack st) = take (level + 1) (parentStack st) \<and>
         length (pop_stack level (parentStack st)) = min (length (parentStack st)) (level + 1) \<and>
         1 \<le> length (pop_stack level (parentStack st)) \<and>
         hd (pop_stack level (parentStack st)) = hd (parentStack st) \<and>
         (length (parentStack st) \<le> level + 1 \<longrightarrow>
            pop_stack level (parentStack st) = parentStack st \<and>
            paths (process_line st line) =
              paths st @ [last (parentStack st) @ name (extractNameAndComment line)]) \<and>
         1 \<le> length (parentStack (process_line st line))"
proof -
  have ne: "parentStack st \<noteq> []"
    unfolding reach using foldl_stack [of "root_state line0" before]
    by (simp add: root_state_stack)
  then have len: "1 \<le> length (parentStack st)"
    by (cases "parentStack st") simp_all
  have popped: "pop_stack level (parentStack st) \<noteq> []"
    using ne by (rule pop_stack_nonempty)
  then have plen: "1 \<le> length (pop_stack level (parentStack st))"
    by (cases "pop_stack level (parentStack st)") simp_all
  have after: "parentStack (process_line st line) \<noteq> []"
    using process_line_stack [OF ne] by blast
  then have alen: "1 \<le> length (parentStack (process_line st line))"
    by (cases "parentStack (process_line st line)") simp_all
  have lenient: "pop_stack level (parentStack st) = parentStack st \<and>
      paths (process_line st line) =
        paths st @ [last (parentStack st) @ name (extractNameAndComment line)]"
    if short: "length (parentStack st) \<le> level + 1"
  proof -
    have same: "pop_stack level (parentStack st) = parentStack st"
      using short by (simp add: pop_stack_take)
    then show ?thesis
      using ne process_line_paths [OF line, of st] by (simp add: level [symmetric])
  qed
  show ?thesis
    using len plen alen lenient pop_stack_hd [OF ne, of level]
    by (simp add: pop_stack_take)
qed

text \<open>
  The theorem at the root \<^verbatim>\<open>a/\<close> and a line of level 2: the stack has one entry,
  nothing is popped, and the line becomes \<^verbatim>\<open>a/x\<close>.
\<close>

theorem ancestor_stack_keeps_root_witness:
  "trim ([VBAR] @ str '' '' @ [VBAR] @ str '' '' @ [TEE, DASH, DASH] @ str '' x'') \<noteq> [] \<and>
   name (extractNameAndComment ([VBAR] @ str '' '' @ [VBAR] @ str '' '' @ [TEE, DASH, DASH] @ str '' x'')) = str ''x'' \<and>
   calculateIndentationLevel ([VBAR] @ str '' '' @ [VBAR] @ str '' '' @ [TEE, DASH, DASH] @ str '' x'') = 2 \<and>
   parentStack (root_state (str ''a/'')) = [str ''a/''] \<and>
   pop_stack 2 [str ''a/''] = [str ''a/''] \<and>
   paths (process_line (root_state (str ''a/''))
           ([VBAR] @ str '' '' @ [VBAR] @ str '' '' @ [TEE, DASH, DASH] @ str '' x'')) =
     [str ''a/'', str ''a/x'']"
proof -
  let ?line = "[VBAR] @ str '' '' @ [VBAR] @ str '' '' @ [TEE, DASH, DASH] @ str '' x''"
  let ?st = "root_state (str ''a/'')"
  have reach: "?st = foldl process_line (root_state (str ''a/'')) []"
    by simp
  have t: "trim ?line \<noteq> []"
    by (simp add: line_defs)
  have n: "name (extractNameAndComment ?line) = str ''x''"
    by (simp add: line_defs)
  have n': "name (extractNameAndComment ?line) \<noteq> []"
    unfolding n by (simp add: str_def)
  have l: "calculateIndentationLevel ?line = 2"
    by (simp add: line_defs)
  have s: "parentStack ?st = [str ''a/'']" "paths ?st = [str ''a/'']"
    by (simp_all add: root_state_def line_defs)
  have short: "length (parentStack ?st) \<le> 2 + 1"
    by (simp add: s)
  from ancestor_stack_keeps_root [OF reach t n' l [symmetric]] short
  have "pop_stack 2 (parentStack ?st) = parentStack ?st \<and>
        paths (process_line ?st ?line) = paths ?st @ [last (parentStack ?st) @ str ''x'']"
    unfolding n by blast
  then have "pop_stack 2 [str ''a/''] = [str ''a/''] \<and>
        paths (process_line ?st ?line) = [str ''a/'', str ''a/x'']"
    unfolding s by (simp add: str_def)
  with t n l s show ?thesis
    by simp
qed

text \<open>
  Claim C9. When the first non-blank line has a non-empty name \<open>root\<close> that does not
  end in a slash, the stack starts as the one entry \<open>root\<close>, and every later line of
  level 0 with a non-empty name gets the path \<open>root\<close> followed directly by its name,
  placed after the paths of the lines before it. The two lines \<^verbatim>\<open>a\<close> and \<^verbatim>\<open>b\<close> give
  the paths \<^verbatim>\<open>a\<close> and \<^verbatim>\<open>ab\<close>.
\<close>

theorem root_name_is_prefixed_without_separator:
  assumes lines: "content_lines content = line0 # before @ line # after"
    and root: "root = name (extractNameAndComment line0)" "root \<noteq> []" "\<not> endsWith root (str ''/'')"
    and line: "calculateIndentationLevel line = 0" "name (extractNameAndComment line) \<noteq> []"
  shows "parentStack (root_state line0) = [root] \<and>
         (\<exists>more. paths (parseTreeStructure content) =
            paths (foldl process_line (root_state line0) before) @
            (root @ name (extractNameAndComment line)) # more) \<and>
         paths (parseTreeStructure (str ''a'' @ [NEWLINE] @ str ''b'')) = [str ''a'', str ''ab'']"
proof -
  let ?st = "foldl process_line (root_state line0) before"
  have stack0: "parentStack (root_state line0) = [root]"
    by (simp add: root_state_stack root(1))
  then have st: "parentStack ?st \<noteq> []" "hd (parentStack ?st) = root"
    using foldl_stack [of "root_state line0" before] by simp_all
  have "pop_stack 0 (parentStack ?st) = [root]"
    using st by (cases "parentStack ?st") (simp_all add: pop_stack_take)
  moreover have "line \<in> set (content_lines content)"
    by (simp add: lines)
  then have "trim line \<noteq> []"
    by (rule content_lines_nonblank)
  ultimately have emit: "paths (process_line ?st line) = paths ?st @ [root @ name (extractNameAndComment line)]"
    using process_line_paths [OF _ line(2), of ?st] by (simp add: line(1))
  obtain more where "paths (foldl process_line (process_line ?st line) after) =
      paths (process_line ?st line) @ more"
    using foldl_paths_extend by blast
  then have "paths (parseTreeStructure content) =
      paths ?st @ (root @ name (extractNameAndComment line)) # more"
    using parseTreeStructure_Cons [OF lines] emit by simp
  moreover have "paths (parseTreeStructure (str ''a'' @ [NEWLINE] @ str ''b'')) = [str ''a'', str ''ab'']"
    by (simp add: parse_defs)
  ultimately show ?thesis
    using stack0 by blast
qed

text \<open>The theorem at the lines \<^verbatim>\<open>a\<close>, a blank line and \<^verbatim>\<open>b.txt # note\<close>.\<close>

theorem root_name_is_prefixed_without_separator_witness:
  "content_lines (str ''a'' @ [NEWLINE] @ str ''  '' @ [NEWLINE] @ str ''b.txt # note'') =
     str ''a'' # [] @ str ''b.txt # note'' # [] \<and>
   name (extractNameAndComment (str ''a'')) = str ''a'' \<and> \<not> endsWith (str ''a'') (str ''/'') \<and>
   calculateIndentationLevel (str ''b.txt # note'') = 0 \<and>
   name (extractNameAndComment (str ''b.txt # note'')) = str ''b.txt'' \<and>
   paths (parseTreeStructure (str ''a'' @ [NEWLINE] @ str ''  '' @ [NEWLINE] @ str ''b.txt # note'')) =
     [str ''a'', str ''ab.txt'']"
proof -
  let ?c = "str ''a'' @ [NEWLINE] @ str ''  '' @ [NEWLINE] @ str ''b.txt # note''"
  have lines: "content_lines ?c = str ''a'' # [] @ str ''b.txt # note'' # []"
    by (simp add: content_lines_def line_defs)
  have r: "str ''a'' = name (extractNameAndComment (str ''a''))"
    by (simp add: line_defs)
  have r': "str ''a'' \<noteq> []" "\<not> endsWith (str ''a'') (str ''/'')"
    by (simp_all add: str_def endsWith_def SLASH_def)
  have l: "calculateIndentationLevel (str ''b.txt # note'') = 0"
    by (simp add: line_defs)
  have n: "name (extractNameAndComment (str ''b.txt # note'')) = str ''b.txt''"
    by (simp add: line_defs)
  have n': "name (extractNameAndComment (str ''b.txt # note'')) \<noteq> []"
    unfolding n by (simp add: str_def)
  have p0: "paths (foldl process_line (root_state (str ''a'')) []) = [str ''a'']"
    by (simp add: root_state_def line_defs)
  from root_name_is_prefixed_without_separator [OF lines r r' l n']
  obtain more where "paths (parseTreeStructure ?c) = [str ''a''] @ (str ''a'' @ str ''b.txt'') # more"
    unfolding p0 n by blast
  moreover have "length (paths (parseTreeStructure ?c)) = 2"
    by (simp add: parse_defs)
  ultimately have "paths (parseTreeStructure ?c) = [str ''a'', str ''ab.txt'']"
    by (simp add: str_def)
  with lines r [symmetric] r' l n show ?thesis
    by simp
qed

section \<open>The walk up the parents of a file\<close>

lemma dirname_scan_bounds: "dirname_scan path i m = Some e \<Longrightarrow> 1 \<le> e \<and> e \<le> i"
  by (induction path i m rule: dirname_scan.induct) (auto split: if_splits)

lemma dot_str: "str ''.'' = [0x2E]" "str ''/'' = [SLASH]" "str ''//'' = [SLASH, SLASH]"
  by (simp_all add: str_def SLASH_def)

lemma dirname_absolute: "isAbsolute p \<Longrightarrow> isAbsolute (dirname p)"
  by (auto simp: isAbsolute_def dirname_def dot_str Let_def split: option.splits dest!: dirname_scan_bounds)

lemma dirname_relative:
  assumes "\<not> isAbsolute p"
  shows "\<not> isAbsolute (dirname p) \<and> (dirname p = str ''.'' \<or> length (dirname p) < length p)"
  using assms
  by (auto simp: isAbsolute_def dirname_def dot_str SLASH_def Let_def split: option.splits dest!: dirname_scan_bounds)

lemma parent_loop_Some_relative:
  assumes "parent_loop cur dirs = Some y"
  shows "\<not> isAbsolute cur"
proof (rule parent_loop.raw_induct [where P = "\<lambda>c d y. \<not> isAbsolute c", OF _ assms])
  fix f c d y
  assume IH: "\<And>c' d' y'. f c' d' = Some y' \<Longrightarrow> \<not> isAbsolute c'"
    and step: "(if c \<noteq> [] \<and> c \<noteq> str ''.'' then f (dirname c) (set_add (c @ str ''/'') d)
                else Some d) = Some y"
  show "\<not> isAbsolute c"
  proof (cases "c \<noteq> [] \<and> c \<noteq> str ''.''")
    case True
    with step IH have "\<not> isAbsolute (dirname c)" by simp
    then show ?thesis using dirname_absolute by blast
  next
    case False
    then show ?thesis by (auto simp: isAbsolute_def dot_str SLASH_def)
  qed
qed

lemma parent_loop_absolute: "isAbsolute cur \<Longrightarrow> parent_loop cur dirs = None"
  using parent_loop_Some_relative [of cur dirs] by (cases "parent_loop cur dirs") auto

lemma parent_loop_relative: "\<not> isAbsolute cur \<Longrightarrow> \<exists>ds. parent_loop cur dirs = Some ds"
proof (induction "length cur" arbitrary: cur dirs rule: less_induct)
  case less
  show ?case
  proof (cases "cur \<noteq> [] \<and> cur \<noteq> str ''.''")
    case False
    then show ?thesis by (subst parent_loop.simps) auto
  next
    case True
    note rel = dirname_relative [OF less.prems]
    show ?thesis
    proof (cases "dirname cur = str ''.''")
      case d: True
      have "parent_loop (str ''.'') (set_add (cur @ str ''/'') dirs) = Some (set_add (cur @ str ''/'') dirs)"
        by (simp add: parent_loop.simps [of "str ''.''"])
      then show ?thesis using True d by (simp add: parent_loop.simps [of cur dirs])
    next
      case False
      with rel have "length (dirname cur) < length cur" "\<not> isAbsolute (dirname cur)" by auto
      from less.hyps [OF this] obtain ds where
        "parent_loop (dirname cur) (set_add (cur @ str ''/'') dirs) = Some ds" by blast
      then show ?thesis using True by (simp add: parent_loop.simps [of cur dirs])
    qed
  qed
qed

lemma set_add_set: "set (set_add x s) = insert x (set s)"
  by (auto simp: set_add_def)

lemma set_add_distinct: "distinct s \<Longrightarrow> distinct (set_add x s)"
  by (simp add: set_add_def)

lemma add_all_set: "set (add_all s xs) = set s \<union> set xs"
  unfolding add_all_def by (induction xs arbitrary: s) (auto simp: set_add_set)

lemma add_all_distinct: "distinct s \<Longrightarrow> distinct (add_all s xs)"
  unfolding add_all_def by (induction xs arbitrary: s) (auto simp: set_add_distinct)

lemma parent_chain_done: "c = [] \<or> c = str ''.'' \<Longrightarrow> parent_chain n c = []"
  by (cases n) auto

lemma parent_chain_fuel:
  "\<not> isAbsolute c \<Longrightarrow> length c \<le> n \<Longrightarrow> parent_chain n c = parent_chain (length c) c"
proof (induction "length c" arbitrary: c n rule: less_induct)
  case less
  show ?case
  proof (cases "c \<noteq> [] \<and> c \<noteq> str ''.''")
    case False
    then show ?thesis by (simp add: parent_chain_done)
  next
    case True
    then obtain m where m: "length c = Suc m" by (cases c) auto
    with less.prems obtain n' where n': "n = Suc n'" "m \<le> n'" by (cases n) auto
    note rel = dirname_relative [OF less.prems(1)]
    have "parent_chain n' (dirname c) = parent_chain m (dirname c)"
    proof (cases "dirname c = str ''.''")
      case True
      then show ?thesis by (simp add: parent_chain_done)
    next
      case False
      with rel have short: "length (dirname c) < length c" and r: "\<not> isAbsolute (dirname c)" by auto
      from short m n' have "length (dirname c) \<le> n'" "length (dirname c) \<le> m" by auto
      with less.hyps [OF short r] show ?thesis by metis
    qed
    then show ?thesis using True m n' by simp
  qed
qed

lemma parent_loop_result:
  "\<not> isAbsolute cur \<Longrightarrow> parent_loop cur dirs = Some (add_all dirs (parent_chain (length cur) cur))"
proof (induction "length cur" arbitrary: cur dirs rule: less_induct)
  case less
  show ?case
  proof (cases "cur \<noteq> [] \<and> cur \<noteq> str ''.''")
    case False
    then have "parent_loop cur dirs = Some dirs"
      by (subst parent_loop.simps) auto
    with False show ?thesis by (simp add: parent_chain_done add_all_def)
  next
    case True
    then obtain m where m: "length cur = Suc m" by (cases cur) auto
    note rel = dirname_relative [OF less.prems]
    have chain: "parent_chain (length cur) cur = (cur @ str ''/'') # parent_chain (length (dirname cur)) (dirname cur)"
    proof (cases "dirname cur = str ''.''")
      case d: True
      then show ?thesis using True m by (simp add: parent_chain_done)
    next
      case False
      with rel m have "length (dirname cur) \<le> m" "\<not> isAbsolute (dirname cur)" by auto
      from parent_chain_fuel [OF this(2,1)] show ?thesis using True m by simp
    qed
    have "parent_loop (dirname cur) (set_add (cur @ str ''/'') dirs) =
        Some (add_all (set_add (cur @ str ''/'') dirs) (parent_chain (length (dirname cur)) (dirname cur)))"
    proof (cases "dirname cur = str ''.''")
      case d: True
      have "parent_loop (str ''.'') (set_add (cur @ str ''/'') dirs) = Some (set_add (cur @ str ''/'') dirs)"
        by (subst parent_loop.simps) simp
      then show ?thesis by (simp add: d parent_chain_done add_all_def)
    next
      case False
      with rel have "length (dirname cur) < length cur" "\<not> isAbsolute (dirname cur)" by auto
      then show ?thesis by (rule less.hyps)
    qed
    then have "parent_loop cur dirs =
        Some (add_all (set_add (cur @ str ''/'') dirs) (parent_chain (length (dirname cur)) (dirname cur)))"
      using True by (subst parent_loop.simps) simp
    then show ?thesis by (simp add: chain add_all_def)
  qed
qed

section \<open>The path classifier\<close>

lemma endsWith_append_slash: "endsWith (c @ str ''/'') (str ''/'')"
  by (simp add: endsWith_def str_def)

lemma parent_chain_slash: "d \<in> set (parent_chain n c) \<Longrightarrow> endsWith d (str ''/'')"
  by (induction n c rule: parent_chain.induct) (auto simp: endsWith_append_slash split: if_splits)

lemma implied_directories_slash: "d \<in> set (implied_directories p) \<Longrightarrow> endsWith d (str ''/'')"
  unfolding implied_directories_def by (rule parent_chain_slash)

lemma isAbsolute_dirname: "isAbsolute (dirname p) \<longleftrightarrow> isAbsolute p"
  using dirname_absolute [of p] dirname_relative [of p] by blast

lemma parent_loop_None_iff: "parent_loop cur dirs = None \<longleftrightarrow> isAbsolute cur"
  using parent_loop_absolute [of cur dirs] parent_loop_relative [of cur dirs]
  by (cases "isAbsolute cur") auto

lemma classify_loop_None_iff:
  "classify_loop ps dirs fs = None \<longleftrightarrow> (\<exists>p\<in>set ps. \<not> endsWith p (str ''/'') \<and> isAbsolute p)"
proof (induction ps arbitrary: dirs fs)
  case Nil
  show ?case by simp
next
  case (Cons p ps)
  show ?case
  proof (cases "endsWith p (str ''/'')")
    case True
    then show ?thesis using Cons.IH by simp
  next
    case False
    show ?thesis
    proof (cases "parent_loop (dirname p) dirs")
      case None
      then have "isAbsolute p"
        by (simp add: parent_loop_None_iff isAbsolute_dirname)
      with None False show ?thesis by auto
    next
      case (Some ds)
      then have "\<not> isAbsolute p"
        using parent_loop_None_iff [of "dirname p" dirs] by (simp add: isAbsolute_dirname)
      with Some False Cons.IH [of ds "fs @ [p]"] show ?thesis by auto
    qed
  qed
qed

lemma separateDirectoriesAndFiles_None_iff:
  "separateDirectoriesAndFiles ps = None \<longleftrightarrow>
   (\<exists>p\<in>set ps. \<not> endsWith p (str ''/'') \<and> isAbsolute p)"
  using classify_loop_None_iff [of ps "[]" "[]"]
  by (auto simp: separateDirectoriesAndFiles_def split: option.splits)

lemma classify_loop_result:
  "classify_loop ps dirs fs = Some (ds, fs') \<Longrightarrow>
     fs' = fs @ filter (\<lambda>p. \<not> endsWith p (str ''/'')) ps \<and>
     set ds = set dirs \<union> {p \<in> set ps. endsWith p (str ''/'')} \<union>
       (\<Union>p\<in>{p \<in> set ps. \<not> endsWith p (str ''/'')}. set (implied_directories p)) \<and>
     (distinct dirs \<longrightarrow> distinct ds)"
proof (induction ps arbitrary: dirs fs)
  case Nil
  then show ?case by simp
next
  case (Cons p ps)
  show ?case
  proof (cases "endsWith p (str ''/'')")
    case True
    with Cons.prems have "classify_loop ps (set_add p dirs) fs = Some (ds, fs')" by simp
    from Cons.IH [OF this] True show ?thesis
      by (auto simp: set_add_set set_add_distinct)
  next
    case False
    with Cons.prems obtain d' where loop: "parent_loop (dirname p) dirs = Some d'"
      and rest: "classify_loop ps d' (fs @ [p]) = Some (ds, fs')"
      by (auto split: option.splits)
    have "\<not> isAbsolute (dirname p)"
      using loop by (rule parent_loop_Some_relative)
    from parent_loop_result [OF this, of dirs] loop
    have d': "d' = add_all dirs (implied_directories p)"
      by (simp add: implied_directories_def)
    from Cons.IH [OF rest] False show ?thesis
      by (auto simp: d' add_all_set add_all_distinct)
  qed
qed

lemma slash_count_eq: "slash_count a = count_list a SLASH"
  by (simp add: slash_count_def match_all_def Let_def length_filter_eq_count filter_eq_Nil_count)

text \<open>
  What the classifier returns. \<^verbatim>\<open>separateDirectoriesAndFiles\<close> returns on every path
  list in which no file path (a path that does not end in a slash) is absolute.
  Whenever it returns, the files are the paths that do not end in a slash, in the order
  of the input; a path of the input is among the directories exactly when it ends in a
  slash; the directories are the explicit ones together with the directories that the
  files imply, each once; and they are sorted by the number of slashes in ascending
  order: of two positions, the earlier never holds more slashes than the later.
\<close>

lemma separateDirectoriesAndFiles_result:
  "((\<forall>p\<in>set ps. \<not> endsWith p (str ''/'') \<longrightarrow> \<not> isAbsolute p) \<longrightarrow>
      (\<exists>res. separateDirectoriesAndFiles ps = Some res)) \<and>
   (separateDirectoriesAndFiles ps = Some r \<longrightarrow>
      files r = filter (\<lambda>p. \<not> endsWith p (str ''/'')) ps \<and>
      (\<forall>p\<in>set ps. p \<in> set (directories r) \<longleftrightarrow> endsWith p (str ''/'')) \<and>
      set (directories r) = {p \<in> set ps. endsWith p (str ''/'')} \<union>
        (\<Union>p\<in>{p \<in> set ps. \<not> endsWith p (str ''/'')}. set (implied_directories p)) \<and>
      distinct (directories r) \<and>
      sorted (map slash_count (directories r)) \<and>
      (\<forall>i j. i < j \<and> j < length (directories r) \<longrightarrow>
         count_list (directories r ! i) SLASH \<le> count_list (directories r ! j) SLASH))"
  (is "(?pre \<longrightarrow> ?tot) \<and> (?ret \<longrightarrow> ?f1 \<and> ?f2 \<and> ?f3 \<and> ?f4 \<and> ?f5 \<and> ?f6)")
proof -
  have total: ?tot if ?pre
  proof (cases "separateDirectoriesAndFiles ps")
    case None
    then have "\<exists>p\<in>set ps. \<not> endsWith p (str ''/'') \<and> isAbsolute p"
      by (simp only: separateDirectoriesAndFiles_None_iff)
    with that show ?thesis by blast
  next
    case (Some res)
    then show ?thesis by blast
  qed
  have correct: "?f1 \<and> ?f2 \<and> ?f3 \<and> ?f4 \<and> ?f5 \<and> ?f6" if ret: ?ret
  proof -
    from ret obtain ds fs where loop: "classify_loop ps [] [] = Some (ds, fs)"
      and r: "directories r = sort_key slash_count ds" "files r = fs"
      by (auto simp: separateDirectoriesAndFiles_def split: option.splits)
    note res = classify_loop_result [OF loop]
    from res have fs: "fs = filter (\<lambda>p. \<not> endsWith p (str ''/'')) ps"
      by simp
    from res have ds: "set ds = {p \<in> set ps. endsWith p (str ''/'')} \<union>
        (\<Union>p\<in>{p \<in> set ps. \<not> endsWith p (str ''/'')}. set (implied_directories p))"
      by simp
    from res have dist: "distinct ds"
      by simp
    have slashes: "endsWith d (str ''/'')" if "d \<in> set ds" for d
      using that implied_directories_slash unfolding ds by blast
    have explicit: "p \<in> set ds" if "p \<in> set ps" "endsWith p (str ''/'')" for p
      using that unfolding ds by blast
    have f1: ?f1
      by (simp only: r fs)
    have f2: ?f2
      using slashes explicit by (auto simp only: r set_sort)
    have f3: ?f3
      by (simp only: r set_sort ds)
    have f4: ?f4
      using dist by (simp only: r distinct_sort)
    have f5: ?f5
      unfolding r by (rule sorted_sort_key)
    have "\<forall>i j. i < j \<longrightarrow> j < length (directories r) \<longrightarrow>
        slash_count (directories r ! i) \<le> slash_count (directories r ! j)"
      using f5 by (simp only: sorted_iff_nth_mono_less length_map nth_map) (metis nth_map order_less_trans)
    then have f6: ?f6
      by (simp only: slash_count_eq) blast
    from f1 f2 f3 f4 f5 f6 show ?thesis
      by (intro conjI)
  qed
  show ?thesis
  proof (rule conjI)
    show "?pre \<longrightarrow> ?tot"
      by (rule impI) (rule total)
    show "?ret \<longrightarrow> ?f1 \<and> ?f2 \<and> ?f3 \<and> ?f4 \<and> ?f5 \<and> ?f6"
      by (rule impI) (rule correct)
  qed
qed

lemmas classify_defs =
  separateDirectoriesAndFiles_def parent_loop.simps dirname_def set_add_def slash_count_def
  match_all_def endsWith_def str_def SLASH_def Let_def

lemma example_classified:
  "separateDirectoriesAndFiles
     [str ''project/'', str ''project/src/'', str ''project/src/components/'',
      str ''project/src/components/Button.js'', str ''project/src/components/Input.js'',
      str ''project/src/index.js'', str ''project/package.json''] =
   Some \<lparr>directories = [str ''project/'', str ''project/src/'', str ''project/src/components/''],
         files = [str ''project/src/components/Button.js'', str ''project/src/components/Input.js'',
                  str ''project/src/index.js'', str ''project/package.json'']\<rparr>"
  by (simp add: classify_defs)

text \<open>
  The seven paths of the example tree: three directories in the order of their depth,
  and the four files in the order of the input.
\<close>

lemma separateDirectoriesAndFiles_result_example:
  "list_all (\<lambda>p. endsWith p (str ''/'') \<or> \<not> isAbsolute p)
     [str ''project/'', str ''project/src/'', str ''project/src/components/'',
      str ''project/src/components/Button.js'', str ''project/src/components/Input.js'',
      str ''project/src/index.js'', str ''project/package.json''] \<and>
   separateDirectoriesAndFiles
     [str ''project/'', str ''project/src/'', str ''project/src/components/'',
      str ''project/src/components/Button.js'', str ''project/src/components/Input.js'',
      str ''project/src/index.js'', str ''project/package.json''] =
   Some \<lparr>directories = [str ''project/'', str ''project/src/'', str ''project/src/components/''],
         files = [str ''project/src/components/Button.js'', str ''project/src/components/Input.js'',
                  str ''project/src/index.js'', str ''project/package.json'']\<rparr> \<and>
   sorted (map slash_count [str ''project/'', str ''project/src/'', str ''project/src/components/'']) \<and>
   distinct [str ''project/'', str ''project/src/'', str ''project/src/components/'']"
  (is "?rel \<and> ?ev \<and> ?sorted \<and> ?distinct")
proof -
  let ?ps = "[str ''project/'', str ''project/src/'', str ''project/src/components/'',
      str ''project/src/components/Button.js'', str ''project/src/components/Input.js'',
      str ''project/src/index.js'', str ''project/package.json'']"
  let ?r = "\<lparr>directories = [str ''project/'', str ''project/src/'', str ''project/src/components/''],
         files = [str ''project/src/components/Button.js'', str ''project/src/components/Input.js'',
                  str ''project/src/index.js'', str ''project/package.json'']\<rparr>"
  have rel: ?rel
    by (simp add: isAbsolute_def str_def SLASH_def)
  have ev: ?ev
    by (rule example_classified)
  from separateDirectoriesAndFiles_result [of ?ps ?r]
  have "separateDirectoriesAndFiles ?ps = Some ?r \<longrightarrow>
      distinct (directories ?r) \<and> sorted (map slash_count (directories ?r))"
    by blast
  with ev have "distinct (directories ?r) \<and> sorted (map slash_count (directories ?r))"
    by (rule rev_mp)
  then have "?distinct \<and> ?sorted"
    by (simp only: classification.simps)
  with rel ev show ?thesis
    by (intro conjI) simp_all
qed

text \<open>
  Claim C2. The walk up the parents of a file should end on every path list. For the
  file path \<^verbatim>\<open>/a\<close> it does not: \<^verbatim>\<open>dirname\<close> gives \<^verbatim>\<open>/\<close>, which is neither empty
  nor \<^verbatim>\<open>.\<close>, and \<^verbatim>\<open>dirname\<close> of \<^verbatim>\<open>/\<close> is \<^verbatim>\<open>/\<close> again. The parser produces such
  paths: the tree with the root \<^verbatim>\<open>/srv/\<close> and the entry \<^verbatim>\<open>app.js\<close> gives the file path
  \<^verbatim>\<open>/srv/app.js\<close>, on which the classifier does not return either.
\<close>

theorem separateDirectoriesAndFiles_absolute_file_never_returns:
  "separateDirectoriesAndFiles [str ''/a''] = None \<and>
   paths (parseTreeStructure (str ''/srv/'' @ [NEWLINE] @ [ELBOW, DASH, DASH] @ str '' app.js'')) =
     [str ''/srv/'', str ''/srv/app.js''] \<and>
   separateDirectoriesAndFiles [str ''/srv/'', str ''/srv/app.js''] = None"
proof -
  have "\<exists>p\<in>set [str ''/a'']. \<not> endsWith p (str ''/'') \<and> isAbsolute p"
    by (simp add: endsWith_def isAbsolute_def str_def SLASH_def)
  then have a: "separateDirectoriesAndFiles [str ''/a''] = None"
    by (simp only: separateDirectoriesAndFiles_None_iff)
  have "\<exists>p\<in>set [str ''/srv/'', str ''/srv/app.js'']. \<not> endsWith p (str ''/'') \<and> isAbsolute p"
    by (simp add: endsWith_def isAbsolute_def str_def SLASH_def)
  then have b: "separateDirectoriesAndFiles [str ''/srv/'', str ''/srv/app.js''] = None"
    by (simp only: separateDirectoriesAndFiles_None_iff)
  have c: "paths (parseTreeStructure (str ''/srv/'' @ [NEWLINE] @ [ELBOW, DASH, DASH] @ str '' app.js'')) =
     [str ''/srv/'', str ''/srv/app.js'']"
    by (simp add: parse_defs)
  from a c b show ?thesis
    by (intro conjI)
qed

text \<open>
  Claim C6. For every input path list the classifier should return the partition: the
  paths that end in a slash among the directories, the others as the files in the
  order of the input, and the directories sorted by their number of slashes. On the
  list of \<^verbatim>\<open>docs/\<close> and \<^verbatim>\<open>/etc/hosts\<close> it returns nothing: the walk up the parents
  of the absolute file path never ends, the defect of claim C2. On the same list with
  the relative file path \<^verbatim>\<open>etc/hosts\<close> it returns the directories \<^verbatim>\<open>docs/\<close> and
  \<^verbatim>\<open>etc/\<close> and the file \<^verbatim>\<open>etc/hosts\<close>.
\<close>

theorem separateDirectoriesAndFiles_absolute_file_no_partition:
  "separateDirectoriesAndFiles [str ''docs/'', str ''/etc/hosts''] = None \<and>
   separateDirectoriesAndFiles [str ''docs/'', str ''etc/hosts''] =
     Some \<lparr>directories = [str ''docs/'', str ''etc/''], files = [str ''etc/hosts'']\<rparr>"
proof -
  have "\<exists>p\<in>set [str ''docs/'', str ''/etc/hosts'']. \<not> endsWith p (str ''/'') \<and> isAbsolute p"
    by (simp add: endsWith_def isAbsolute_def str_def SLASH_def)
  then have none: "separateDirectoriesAndFiles [str ''docs/'', str ''/etc/hosts''] = None"
    by (simp only: separateDirectoriesAndFiles_None_iff)
  have some: "separateDirectoriesAndFiles [str ''docs/'', str ''etc/hosts''] =
     Some \<lparr>directories = [str ''docs/'', str ''etc/''], files = [str ''etc/hosts'']\<rparr>"
    by (simp add: classify_defs)
  from none some show ?thesis
    by (intro conjI)
qed

end
